theory Spec2Isabelle
  imports Main "HOL-Library.Word" "HOL-Library.Sublist"
begin

section \<open>JavaScript strings\<close>

text \<open>
  A JavaScript string is a sequence of UTF-16 code units; \<open>length\<close>, \<open>includes\<close>,
  \<open>split\<close>, \<open>replace\<close> and \<open>trim\<close> all work on code units. \<open>str\<close> embeds an
  ASCII literal of the source.
\<close>

type_synonym code_unit = "16 word"

type_synonym jsstring = "code_unit list"

definition str :: "string \<Rightarrow> jsstring" where
  "str s = map of_char s"

text \<open>
  \<open>String.prototype.trim\<close> and the regular expression class \<open>\s\<close> use the same set:
  WhiteSpace and LineTerminator of ECMAScript (TAB, LF, VT, FF, CR, SP, NBSP, the
  Unicode space separators, LS, PS and ZWNBSP).
\<close>

definition isWhiteSpace :: "code_unit \<Rightarrow> bool" where
  "isWhiteSpace c =
     (c = 0x0009 \<or> c = 0x000A \<or> c = 0x000B \<or> c = 0x000C \<or> c = 0x000D \<or>
      c = 0x0020 \<or> c = 0x00A0 \<or> c = 0x1680 \<or> (0x2000 \<le> c \<and> c \<le> 0x200A) \<or>
      c = 0x2028 \<or> c = 0x2029 \<or> c = 0x202F \<or> c = 0x205F \<or> c = 0x3000 \<or>
      c = 0xFEFF)"

definition trim :: "jsstring \<Rightarrow> jsstring" where
  "trim s = rev (dropWhile isWhiteSpace (rev (dropWhile isWhiteSpace s)))"

text \<open>
  \<open>s.indexOf(pat)\<close>: the index of the first occurrence of \<open>pat\<close> in \<open>s\<close>
  (\<open>None\<close> for the source's \<open>-1\<close>); \<open>s.includes(pat)\<close> is \<open>indexOf \<noteq> -1\<close>.
\<close>

fun indexOf :: "'a list \<Rightarrow> 'a list \<Rightarrow> nat option" where
  "indexOf [] pat = (if pat = [] then Some 0 else None)"
| "indexOf (c # cs) pat =
     (if prefix pat (c # cs) then Some 0 else map_option Suc (indexOf cs pat))"

definition str_includes :: "'a list \<Rightarrow> 'a list \<Rightarrow> bool" where
  "str_includes s pat = (indexOf s pat \<noteq> None)"

text \<open>
  \<open>s.split(sep)\<close> with a string separator: the pieces between the successive
  non-overlapping occurrences of \<open>sep\<close>, found left to right; with the empty
  separator, the code units one by one.
\<close>

function split_str :: "'a list \<Rightarrow> 'a list \<Rightarrow> 'a list list" where
  "split_str s sep =
     (if sep = [] then map (\<lambda>c. [c]) s
      else (case indexOf s sep of
              None \<Rightarrow> [s]
            | Some q \<Rightarrow> take q s # split_str (drop (q + length sep) s) sep))"
  by pat_completeness auto
termination
proof (relation "measure (\<lambda>(s, sep). length s)")
  show "wf (measure (\<lambda>(s, sep). length s))"
    by simp
next
  fix s :: "'a list" and sep :: "'a list" and q :: nat
  assume "sep \<noteq> []" and "indexOf s sep = Some q"
  then have "s \<noteq> []"
    by (cases s) auto
  with \<open>sep \<noteq> []\<close> show "((drop (q + length sep) s, sep), (s, sep)) \<in> measure (\<lambda>(s, sep). length s)"
    by (cases s; cases sep) auto
qed

declare split_str.simps [simp del]

text \<open>
  \<open>s.replace(pat, repl)\<close> with a string pattern replaces the first occurrence only
  (the replacement \<open>''\<close> of the source has no \<open>$\<close> pattern).
\<close>

definition replace_first :: "'a list \<Rightarrow> 'a list \<Rightarrow> 'a list \<Rightarrow> 'a list" where
  "replace_first s pat repl =
     (case indexOf s pat of
        None \<Rightarrow> s
      | Some q \<Rightarrow> take q s @ repl @ drop (q + length pat) s)"

text \<open>
  \<open>s.split(/(?<=[.!?])\s+/)\<close>. The expression matches at position \<open>q\<close> when the code
  unit before \<open>q\<close> is one of \<open>. ! ?\<close> and the one at \<open>q\<close> is white space; the match
  runs to the end of the white space. The split scans \<open>q\<close> from the end of the last
  match, closes the current piece at a match and goes on behind it. The flag says
  whether the code unit before the current position is a terminator: there is none at
  the start, and behind a match it is white space.
\<close>

definition isTerminator :: "code_unit \<Rightarrow> bool" where
  "isTerminator c = (c = of_char CHR ''.'' \<or> c = of_char CHR ''!'' \<or> c = of_char CHR ''?'')"

function split_from :: "jsstring \<Rightarrow> bool \<Rightarrow> jsstring \<Rightarrow> jsstring list" where
  "split_from piece behind [] = [piece]"
| "split_from piece behind (c # cs) =
     (if behind \<and> isWhiteSpace c
      then piece # split_from [] False (dropWhile isWhiteSpace cs)
      else split_from (piece @ [c]) (isTerminator c) cs)"
  by pat_completeness auto
termination
  by (relation "measure (\<lambda>(piece, behind, s). length s)")
     (auto simp: less_Suc_eq_le length_dropWhile_le)

definition split_sentences :: "jsstring \<Rightarrow> jsstring list" where
  "split_sentences s = split_from [] False s"

section \<open>The stream classifier\<close>

text \<open>
  The handler of \<open>POST /api/generate-itinerary\<close> keeps three variables while it reads
  the stream (\<open>currentSection\<close> and \<open>totalTokens\<close> are never read). What it does to
  the outside is a call of \<open>logToDebug(message, level)\<close> or a \<open>res.write\<close> of a
  server-sent event; the model returns them in the order of the calls.
\<close>

record stream_state =
  fullResponse :: jsstring
  reasoningBuffer :: jsstring
  inReasoning :: bool

datatype level = Info | Success | Error

datatype sse_event = ChunkEvent jsstring | DoneEvent jsstring

datatype effect = LogToDebug jsstring level | ResWrite sse_event

definition initial_state :: stream_state where
  "initial_state = \<lparr>fullResponse = [], reasoningBuffer = [], inReasoning = False\<rparr>"

definition REASONING :: jsstring where
  "REASONING = str ''REASONING:''"

definition RESULT :: jsstring where
  "RESULT = str ''RESULT:''"

text \<open>Detect REASONING section.\<close>

definition detect_reasoning :: "stream_state \<Rightarrow> stream_state \<times> effect list" where
  "detect_reasoning st =
     (if str_includes (reasoningBuffer st) REASONING \<and> \<not> inReasoning st
      then (st\<lparr>inReasoning := True, reasoningBuffer := []\<rparr>,
            [LogToDebug (str ''AI started reasoning process...'') Info])
      else (st, []))"

text \<open>Detect RESULT section (reasoning done).\<close>

definition detect_result :: "stream_state \<Rightarrow> stream_state \<times> effect list" where
  "detect_result st =
     (if str_includes (reasoningBuffer st) RESULT \<and> inReasoning st
      then (st\<lparr>inReasoning := False, reasoningBuffer := []\<rparr>,
            [LogToDebug (str ''AI completed reasoning, generating itinerary...'') Success])
      else (st, []))"

text \<open>
  The loop over \<open>sentences[0 .. length - 2]\<close>: a sentence is logged, trimmed, when its
  trimmed text is non-empty and longer than 10 code units.
\<close>

fun log_sentences :: "jsstring list \<Rightarrow> effect list" where
  "log_sentences [] = []"
| "log_sentences (s # ss) =
     (let sentence = trim s in
      (if sentence \<noteq> [] \<and> length sentence > 10
       then [LogToDebug (str ''AI: '' @ sentence) Info] else [])
      @ log_sentences ss)"

text \<open>Log reasoning content in real-time.\<close>

definition log_reasoning :: "stream_state \<Rightarrow> jsstring \<Rightarrow> stream_state \<times> effect list" where
  "log_reasoning st content =
     (if inReasoning st \<and> trim content \<noteq> []
      then (if str_includes content (str ''.'') \<or> str_includes content [0x000A]
            then (let sentences = split_sentences (reasoningBuffer st)
                  in (st\<lparr>reasoningBuffer := last sentences\<rparr>,
                      log_sentences (butlast sentences)))
            else (st, []))
      else (st, []))"

text \<open>
  The body of the loop for one chunk, where \<open>content\<close> is
  \<open>chunk.choices[0]?.delta?.content || ''\<close>: nothing happens when it is empty.
\<close>

definition on_content :: "stream_state \<Rightarrow> jsstring \<Rightarrow> stream_state \<times> effect list" where
  "on_content st content =
     (if content = [] then (st, [])
      else
        (let st1 = st\<lparr>fullResponse := fullResponse st @ content,
                       reasoningBuffer := reasoningBuffer st @ content\<rparr>;
             (st2, log2) = detect_reasoning st1;
             (st3, log3) = detect_result st2;
             (st4, log4) = log_reasoning st3 content
         in (st4, log2 @ log3 @ log4 @ [ResWrite (ChunkEvent content)])))"

fun stream_loop :: "stream_state \<Rightarrow> jsstring list \<Rightarrow> stream_state \<times> effect list" where
  "stream_loop st [] = (st, [])"
| "stream_loop st (content # rest) =
     (let (st1, out1) = on_content st content;
          (st2, out2) = stream_loop st1 rest
      in (st2, out1 @ out2))"

definition logs :: "effect list \<Rightarrow> (jsstring \<times> level) list" where
  "logs out = concat (map (\<lambda>e. case e of LogToDebug m l \<Rightarrow> [(m, l)] | ResWrite _ \<Rightarrow> []) out)"

definition writes :: "effect list \<Rightarrow> sse_event list" where
  "writes out = concat (map (\<lambda>e. case e of LogToDebug _ _ \<Rightarrow> [] | ResWrite w \<Rightarrow> [w]) out)"

section \<open>The result extractor\<close>

text \<open>
  After the stream: \<open>jsonResult\<close> and, inside the branch, \<open>reasoning\<close>. Outside the
  branch there is no reasoning text and no summary is logged; the model gives the empty
  string there. \<open>parts[1].trim()\<close> on a missing \<open>parts[1]\<close> would throw a TypeError.
\<close>

datatype js_error = TypeError

record extracted =
  reasoningText :: jsstring
  resultText :: jsstring

definition extract_result :: "jsstring \<Rightarrow> js_error + extracted" where
  "extract_result full =
     (if str_includes full RESULT
      then (case split_str full RESULT of
              p0 # p1 # _ \<Rightarrow>
                Inr \<lparr>reasoningText = trim (replace_first p0 REASONING []),
                     resultText = trim p1\<rparr>
            | _ \<Rightarrow> Inl TypeError)
      else Inr \<lparr>reasoningText = [], resultText = full\<rparr>)"

section \<open>Event fan-out\<close>

text \<open>
  \<open>debugClients\<close> is a JavaScript \<open>Set\<close> of WebSocket objects: no element twice,
  iterated in the order of insertion. A socket is known by its identity. What
  \<open>client.send\<close> was given is kept per socket, oldest first; \<open>console.log\<close> lines
  likewise. The time stamp of a log record comes from the clock and is an argument.
\<close>

datatype ready_state = CONNECTING | OPEN | CLOSING | CLOSED

type_synonym socket = nat

record log_record =
  timestamp :: jsstring
  level :: level
  message :: jsstring

record server =
  debugClients :: "socket list"
  readyState :: "socket \<Rightarrow> ready_state"
  sent :: "socket \<Rightarrow> log_record list"
  console :: "jsstring list"

definition set_add :: "'a \<Rightarrow> 'a list \<Rightarrow> 'a list" where
  "set_add x xs = (if x \<in> set xs then xs else xs @ [x])"

definition set_delete :: "'a \<Rightarrow> 'a list \<Rightarrow> 'a list" where
  "set_delete x xs = filter (\<lambda>y. y \<noteq> x) xs"

text \<open>Broadcast log to all debug consoles.\<close>

definition logToDebug :: "server \<Rightarrow> jsstring \<Rightarrow> jsstring \<Rightarrow> level \<Rightarrow> server" where
  "logToDebug sv now msg lvl =
     (let log = \<lparr>timestamp = now, level = lvl, message = msg\<rparr>
      in sv\<lparr>sent :=
               fold (\<lambda>client s.
                      if readyState sv client = OPEN then s(client := s client @ [log]) else s)
                    (debugClients sv) (sent sv),
             console := console sv @ [str ''['' @ now @ str ''] '' @ msg]\<rparr>)"

text \<open>WebSocket connection handler, and the \<open>close\<close> handler it installs.\<close>

definition on_connection :: "server \<Rightarrow> jsstring \<Rightarrow> socket \<Rightarrow> server" where
  "on_connection sv now ws =
     logToDebug (sv\<lparr>debugClients := set_add ws (debugClients sv)\<rparr>) now
       (str ''Debug console connected'') Success"

definition on_close :: "server \<Rightarrow> jsstring \<Rightarrow> socket \<Rightarrow> server" where
  "on_close sv now ws =
     logToDebug (sv\<lparr>debugClients := set_delete ws (debugClients sv)\<rparr>) now
       (str ''Debug console disconnected'') Info"

text \<open>
  What can happen to the server between two moments: a console connects, a console's
  socket closes, some handler calls \<open>logToDebug\<close>, or the network changes the ready
  state of a socket.
\<close>

datatype server_event =
    Connection socket
  | Close socket
  | Broadcast jsstring level
  | ReadyStateChange socket ready_state

fun server_step :: "server \<Rightarrow> jsstring \<times> server_event \<Rightarrow> server" where
  "server_step sv (now, Connection ws) = on_connection sv now ws"
| "server_step sv (now, Close ws) = on_close sv now ws"
| "server_step sv (now, Broadcast msg lvl) = logToDebug sv now msg lvl"
| "server_step sv (now, ReadyStateChange ws rs) = sv\<lparr>readyState := (readyState sv)(ws := rs)\<rparr>"

definition server_run :: "server \<Rightarrow> (jsstring \<times> server_event) list \<Rightarrow> server" where
  "server_run sv evs = foldl server_step sv evs"

definition server_start :: server where
  "server_start =
     \<lparr>debugClients = [], readyState = (\<lambda>_. CONNECTING), sent = (\<lambda>_. []), console = []\<rparr>"

section \<open>The geo filter\<close>

text \<open>
  JavaScript numbers are IEEE 754 doubles and \<open>Math.sin\<close>, \<open>Math.cos\<close>, \<open>Math.sqrt\<close>
  and \<open>Math.atan2\<close> are the platform's. The filter is modelled over any number type
  \<open>'n\<close> with the operations it uses: literals, the four arithmetic operations, the
  \<open>Math\<close> functions, \<open>\<le>\<close> and the truthiness of a number (for \<open>||\<close>).
\<close>

record 'n number_ops =
  lit :: "int \<Rightarrow> 'n"
  Math_PI :: 'n
  add :: "'n \<Rightarrow> 'n \<Rightarrow> 'n"
  sub :: "'n \<Rightarrow> 'n \<Rightarrow> 'n"
  mul :: "'n \<Rightarrow> 'n \<Rightarrow> 'n"
  quot :: "'n \<Rightarrow> 'n \<Rightarrow> 'n"
  Math_sin :: "'n \<Rightarrow> 'n"
  Math_cos :: "'n \<Rightarrow> 'n"
  Math_sqrt :: "'n \<Rightarrow> 'n"
  Math_atan2 :: "'n \<Rightarrow> 'n \<Rightarrow> 'n"
  le :: "'n \<Rightarrow> 'n \<Rightarrow> bool"
  truthy :: "'n \<Rightarrow> bool"

definition toRad :: "'n number_ops \<Rightarrow> 'n \<Rightarrow> 'n" where
  "toRad N degrees = mul N degrees (quot N (Math_PI N) (lit N 180))"

text \<open>Calculate distance using Haversine formula.\<close>

definition calculateDistance :: "'n number_ops \<Rightarrow> 'n \<Rightarrow> 'n \<Rightarrow> 'n \<Rightarrow> 'n \<Rightarrow> 'n" where
  "calculateDistance N lat1 lon1 lat2 lon2 =
     (let R = lit N 3959;
          dLat = toRad N (sub N lat2 lat1);
          dLon = toRad N (sub N lon2 lon1);
          a = add N
                (mul N (Math_sin N (quot N dLat (lit N 2))) (Math_sin N (quot N dLat (lit N 2))))
                (mul N
                  (mul N
                    (mul N (Math_cos N (toRad N lat1)) (Math_cos N (toRad N lat2)))
                    (Math_sin N (quot N dLon (lit N 2))))
                  (Math_sin N (quot N dLon (lit N 2))));
          c = mul N (lit N 2)
                (Math_atan2 N (Math_sqrt N a) (Math_sqrt N (sub N (lit N 1) a)))
      in mul N R c)"

text \<open>
  The request: \<open>hotel\<close> and each activity have \<open>name\<close>, \<open>lat\<close> and \<open>lng\<close>; an
  activity's \<open>price\<close> may be absent.
\<close>

record 'n place =
  name :: jsstring
  lat :: 'n
  lng :: 'n

record 'n hotel = "'n place" +
  city :: jsstring

record 'n activity = "'n place" +
  type :: jsstring
  price :: "'n option"
  rating :: 'n

record 'n preferences =
  budget :: 'n
  maxDistance :: 'n
  duration :: jsstring

text \<open>\<open>activity.price || 0\<close>: the price when it is there and truthy, otherwise 0.\<close>

definition price_or_0 :: "'n number_ops \<Rightarrow> 'n activity \<Rightarrow> 'n" where
  "price_or_0 N activity =
     (case price activity of
        None \<Rightarrow> lit N 0
      | Some p \<Rightarrow> if truthy N p then p else lit N 0)"

text \<open>Filter activities by distance and budget: the predicate, and the filter.\<close>

definition within_criteria ::
  "'n number_ops \<Rightarrow> 'n hotel \<Rightarrow> 'n preferences \<Rightarrow> 'n activity \<Rightarrow> bool" where
  "within_criteria N hotel preferences activity =
     (let distance = calculateDistance N (lat hotel) (lng hotel) (lat activity) (lng activity)
      in le N distance (maxDistance preferences) \<and>
         le N (price_or_0 N activity) (budget preferences))"

definition filtered ::
  "'n number_ops \<Rightarrow> 'n hotel \<Rightarrow> 'n preferences \<Rightarrow> 'n activity list \<Rightarrow> 'n activity list" where
  "filtered N hotel preferences activities =
     filter (within_criteria N hotel preferences) activities"

section \<open>Facts about the string operations\<close>

lemma indexOf_includes_sublist: "str_includes s pat \<longleftrightarrow> sublist pat s"
  unfolding str_includes_def
proof (induction s)
  case Nil
  then show ?case by auto
next
  case (Cons c cs)
  then show ?case
    by (auto simp: sublist_Cons_right)
qed

lemma indexOf_Some_prefix:
  "indexOf s pat = Some q \<Longrightarrow> q \<le> length s \<and> prefix pat (drop q s)"
proof (induction s arbitrary: q)
  case Nil
  then show ?case by (auto split: if_splits)
next
  case (Cons c cs)
  then show ?case
    by (auto split: if_splits)
qed

lemma indexOf_Some_decomp:
  assumes "indexOf s pat = Some q"
  shows "s = take q s @ pat @ drop (q + length pat) s"
proof -
  from indexOf_Some_prefix [OF assms] obtain r where "drop q s = pat @ r"
    by (auto simp: prefix_def)
  then have "drop (q + length pat) s = r"
    by (metis add.commute append_eq_conv_conj drop_drop)
  with \<open>drop q s = pat @ r\<close> show ?thesis
    by (metis append_take_drop_id)
qed

lemma indexOf_first:
  "indexOf s pat = Some q \<Longrightarrow> i < q \<Longrightarrow> \<not> prefix pat (drop i s)"
proof (induction s arbitrary: q i)
  case Nil
  then show ?case by (auto split: if_splits)
next
  case (Cons c cs)
  then show ?case
    by (cases i) (auto split: if_splits)
qed




lemma not_includes_take_indexOf:
  assumes "indexOf s pat = Some q" and "pat \<noteq> []"
  shows "\<not> str_includes (take q s) pat"
proof
  assume "str_includes (take q s) pat"
  then obtain a b where ab: "take q s = a @ pat @ b"
    by (auto simp: indexOf_includes_sublist sublist_def)
  then have "length (a @ pat @ b) \<le> q"
    by (metis length_take min.cobounded2)
  with assms(2) have "length a < q"
    by (cases pat) auto
  moreover have "s = a @ pat @ b @ drop q s"
    by (metis ab append.assoc append_take_drop_id)
  then have "prefix pat (drop (length a) s)"
    by (metis append_eq_conv_conj prefixI)
  ultimately show False
    using indexOf_first [OF assms(1)] by blast
qed

lemma includes_appendI: "str_includes s pat \<Longrightarrow> str_includes (a @ s @ b) pat"
  unfolding indexOf_includes_sublist sublist_def
  by (metis append.assoc)

lemma includes_mono: "sublist s t \<Longrightarrow> str_includes s pat \<Longrightarrow> str_includes t pat"
  unfolding indexOf_includes_sublist
  using sublist_order.order_trans by blast

lemma sublist_trim: "sublist (trim s) s"
proof -
  have "sublist (trim s) (dropWhile isWhiteSpace s)"
    unfolding trim_def
    by (metis sublist_dropWhile sublist_rev_left)
  then show ?thesis
    using sublist_dropWhile sublist_order.order_trans by blast
qed

lemma split_str_Some:
  "sep \<noteq> [] \<Longrightarrow> indexOf s sep = Some q \<Longrightarrow>
   split_str s sep = take q s # split_str (drop (q + length sep) s) sep"
  by (subst split_str.simps) simp

lemma split_str_None:
  "sep \<noteq> [] \<Longrightarrow> indexOf s sep = None \<Longrightarrow> split_str s sep = [s]"
  by (subst split_str.simps) simp

lemma RESULT_not_Nil: "RESULT \<noteq> []"
  by (simp add: RESULT_def str_def)

lemma extract_result_marker:
  assumes "indexOf full RESULT = Some q"
  shows "extract_result full =
     Inr \<lparr>reasoningText = trim (replace_first (take q full) REASONING []),
          resultText = trim (case indexOf (drop (q + length RESULT) full) RESULT of
                               None \<Rightarrow> drop (q + length RESULT) full
                             | Some q' \<Rightarrow> take q' (drop (q + length RESULT) full))\<rparr>"
proof -
  have "split_str full RESULT = take q full # split_str (drop (q + length RESULT) full) RESULT"
    using assms by (simp add: split_str_Some RESULT_not_Nil)
  moreover have "\<exists>ps. split_str (drop (q + length RESULT) full) RESULT =
      (case indexOf (drop (q + length RESULT) full) RESULT of
         None \<Rightarrow> drop (q + length RESULT) full
       | Some q' \<Rightarrow> take q' (drop (q + length RESULT) full)) # ps"
    by (cases "indexOf (drop (q + length RESULT) full) RESULT")
       (simp_all add: split_str_Some split_str_None RESULT_not_Nil)
  ultimately show ?thesis
    using assms by (auto simp: extract_result_def str_includes_def)
qed

lemma extract_result_no_marker:
  "\<not> str_includes full RESULT \<Longrightarrow>
   extract_result full = Inr \<lparr>reasoningText = [], resultText = full\<rparr>"
  by (simp add: extract_result_def)

section \<open>Facts about the sentence split and the loop\<close>

lemma split_from_not_Nil: "split_from piece behind s \<noteq> []"
  by (induction piece behind s rule: split_from.induct) auto


lemma split_sentences_not_Nil: "split_sentences s \<noteq> []"
  by (simp add: split_sentences_def split_from_not_Nil)


lemma logs_append: "logs (a @ b) = logs a @ logs b"
  by (simp add: logs_def)

lemma writes_append: "writes (a @ b) = writes a @ writes b"
  by (simp add: writes_def)

lemma log_sentences_eq:
  "log_sentences ss =
     map (\<lambda>s. LogToDebug (str ''AI: '' @ trim s) Info) (filter (\<lambda>s. 10 < length (trim s)) ss)"
  by (induction ss) (auto simp: Let_def)

lemma writes_log_sentences: "writes (log_sentences ss) = []"
  by (induction ss) (auto simp: Let_def writes_def)

lemma stream_loop_Cons_fst:
  "fst (stream_loop st (c # rest)) = fst (stream_loop (fst (on_content st c)) rest)"
  by (simp add: split_beta)

lemma stream_loop_Cons_snd:
  "snd (stream_loop st (c # rest)) =
     snd (on_content st c) @ snd (stream_loop (fst (on_content st c)) rest)"
  by (simp add: split_beta)

lemma on_content_fullResponse:
  "fullResponse (fst (on_content st c)) = fullResponse st @ c"
  by (simp add: on_content_def detect_reasoning_def detect_result_def log_reasoning_def
      Let_def split_beta)

lemma on_content_writes:
  "writes (snd (on_content st c)) = (if c = [] then [] else [ChunkEvent c])"
  by (simp add: on_content_def detect_reasoning_def detect_result_def log_reasoning_def
      Let_def split_beta writes_append writes_log_sentences)
     (simp add: writes_def)

lemma stream_loop_fullResponse:
  "fullResponse (fst (stream_loop st frags)) = fullResponse st @ concat frags"
proof (induction frags arbitrary: st)
  case Nil
  then show ?case by simp
next
  case (Cons c rest)
  show ?case
    unfolding stream_loop_Cons_fst Cons.IH on_content_fullResponse by simp
qed

lemma stream_loop_writes:
  "writes (snd (stream_loop st frags)) = map ChunkEvent (filter (\<lambda>c. c \<noteq> []) frags)"
proof (induction frags arbitrary: st)
  case Nil
  then show ?case by (simp add: writes_def)
next
  case (Cons c rest)
  show ?case
    unfolding stream_loop_Cons_snd writes_append Cons.IH on_content_writes by simp
qed

lemma on_content_unfold:
  "c \<noteq> [] \<Longrightarrow> on_content st c =
     (let st1 = st\<lparr>fullResponse := fullResponse st @ c,
                    reasoningBuffer := reasoningBuffer st @ c\<rparr>;
          r2 = detect_reasoning st1;
          r3 = detect_result (fst r2);
          r4 = log_reasoning (fst r3) c
      in (fst r4, snd r2 @ snd r3 @ snd r4 @ [ResWrite (ChunkEvent c)]))"
  by (simp add: on_content_def split_beta Let_def)

lemma on_content_Nil: "on_content st [] = (st, [])"
  by (simp add: on_content_def)

lemma on_content_idle:
  assumes "\<not> inReasoning st" and "\<not> str_includes (reasoningBuffer st @ c) REASONING"
  shows "on_content st c =
     (if c = [] then (st, [])
      else (st\<lparr>fullResponse := fullResponse st @ c,
                reasoningBuffer := reasoningBuffer st @ c\<rparr>,
            [ResWrite (ChunkEvent c)]))"
  using assms
  by (simp add: on_content_def detect_reasoning_def detect_result_def log_reasoning_def)

lemma stream_loop_idle:
  assumes "\<not> inReasoning st"
    and "\<not> str_includes (reasoningBuffer st @ concat frags) REASONING"
  shows "logs (snd (stream_loop st frags)) = [] \<and>
         \<not> inReasoning (fst (stream_loop st frags)) \<and>
         reasoningBuffer (fst (stream_loop st frags)) = reasoningBuffer st @ concat frags"
  using assms
proof (induction frags arbitrary: st)
  case Nil
  then show ?case by (simp add: logs_def)
next
  case (Cons c rest)
  have nc: "\<not> str_includes (reasoningBuffer st @ c) REASONING"
    using Cons.prems(2) includes_appendI [of "reasoningBuffer st @ c" REASONING "[]" "concat rest"]
    by auto
  note step = on_content_idle [OF Cons.prems(1) nc]
  show ?case
  proof (cases "c = []")
    case True
    with step Cons show ?thesis
      by (simp add: stream_loop_Cons_fst stream_loop_Cons_snd logs_append del: stream_loop.simps)
  next
    case False
    let ?st1 = "st\<lparr>fullResponse := fullResponse st @ c, reasoningBuffer := reasoningBuffer st @ c\<rparr>"
    have "\<not> inReasoning ?st1" using Cons.prems(1) by simp
    moreover have "\<not> str_includes (reasoningBuffer ?st1 @ concat rest) REASONING"
      using Cons.prems(2) by simp
    ultimately have "logs (snd (stream_loop ?st1 rest)) = [] \<and>
         \<not> inReasoning (fst (stream_loop ?st1 rest)) \<and>
         reasoningBuffer (fst (stream_loop ?st1 rest)) = reasoningBuffer ?st1 @ concat rest"
      by (rule Cons.IH)
    with step False show ?thesis
      by (simp add: stream_loop_Cons_fst stream_loop_Cons_snd logs_append logs_def
          del: stream_loop.simps)
  qed
qed

lemma logs_log_sentences: "snd ` set (logs (log_sentences ss)) \<subseteq> {Info}"
  by (induction ss) (auto simp: Let_def logs_def)

lemma detect_reasoning_logs: "snd ` set (logs (snd (detect_reasoning st))) \<subseteq> {Info}"
  by (simp add: detect_reasoning_def logs_def)

lemma log_reasoning_logs: "snd ` set (logs (snd (log_reasoning st c))) \<subseteq> {Info}"
  using logs_log_sentences by (simp add: log_reasoning_def Let_def logs_def)




lemma detect_result_fired:
  "Success \<in> snd ` set (logs (snd (detect_result st))) \<Longrightarrow>
   fst (detect_result st) = st\<lparr>inReasoning := False, reasoningBuffer := []\<rparr>"
  by (simp add: detect_result_def logs_def split: if_splits)

lemma log_reasoning_idle: "\<not> inReasoning st \<Longrightarrow> log_reasoning st c = (st, [])"
  by (simp add: log_reasoning_def)

lemma on_content_success:
  assumes "Success \<in> snd ` set (logs (snd (on_content st c)))"
  shows "\<not> inReasoning (fst (on_content st c)) \<and> reasoningBuffer (fst (on_content st c)) = []"
proof -
  have ne: "c \<noteq> []"
    using assms by (auto simp: on_content_Nil logs_def)
  define st1 where "st1 = st\<lparr>fullResponse := fullResponse st @ c,
                    reasoningBuffer := reasoningBuffer st @ c\<rparr>"
  define r2 where "r2 = detect_reasoning st1"
  define r3 where "r3 = detect_result (fst r2)"
  define r4 where "r4 = log_reasoning (fst r3) c"
  have oc: "on_content st c = (fst r4, snd r2 @ snd r3 @ snd r4 @ [ResWrite (ChunkEvent c)])"
    using on_content_unfold [OF ne, of st] by (simp add: Let_def st1_def r2_def r3_def r4_def)
  have "Success \<notin> snd ` set (logs (snd r2))"
    using detect_reasoning_logs [of st1] by (auto simp: r2_def)
  moreover have "Success \<notin> snd ` set (logs (snd r4))"
    using log_reasoning_logs [of "fst r3" c] by (auto simp: r4_def)
  ultimately have "Success \<in> snd ` set (logs (snd r3))"
    using assms by (auto simp: oc logs_append) (auto simp: logs_def)
  then have r3: "fst r3 = (fst r2)\<lparr>inReasoning := False, reasoningBuffer := []\<rparr>"
    unfolding r3_def by (rule detect_result_fired)
  then have "r4 = (fst r3, [])"
    by (simp add: r4_def log_reasoning_idle)
  with r3 show ?thesis
    by (simp add: oc)
qed






lemma detect_reasoning_same:
  assumes "reasoningBuffer s = reasoningBuffer t" and "inReasoning s = inReasoning t"
  shows "snd (detect_reasoning s) = snd (detect_reasoning t) \<and>
         reasoningBuffer (fst (detect_reasoning s)) = reasoningBuffer (fst (detect_reasoning t)) \<and>
         inReasoning (fst (detect_reasoning s)) = inReasoning (fst (detect_reasoning t))"
  using assms by (simp add: detect_reasoning_def)

lemma detect_result_same:
  assumes "reasoningBuffer s = reasoningBuffer t" and "inReasoning s = inReasoning t"
  shows "snd (detect_result s) = snd (detect_result t) \<and>
         reasoningBuffer (fst (detect_result s)) = reasoningBuffer (fst (detect_result t)) \<and>
         inReasoning (fst (detect_result s)) = inReasoning (fst (detect_result t))"
  using assms by (simp add: detect_result_def)

lemma log_reasoning_same:
  assumes "reasoningBuffer s = reasoningBuffer t" and "inReasoning s = inReasoning t"
  shows "snd (log_reasoning s c) = snd (log_reasoning t c) \<and>
         reasoningBuffer (fst (log_reasoning s c)) = reasoningBuffer (fst (log_reasoning t c)) \<and>
         inReasoning (fst (log_reasoning s c)) = inReasoning (fst (log_reasoning t c))"
  using assms by (simp add: log_reasoning_def Let_def)

lemma on_content_same_classifier:
  assumes "reasoningBuffer s = reasoningBuffer t" and "inReasoning s = inReasoning t"
  shows "snd (on_content s c) = snd (on_content t c) \<and>
         reasoningBuffer (fst (on_content s c)) = reasoningBuffer (fst (on_content t c)) \<and>
         inReasoning (fst (on_content s c)) = inReasoning (fst (on_content t c))"
proof (cases "c = []")
  case True
  with assms show ?thesis by (simp add: on_content_Nil)
next
  case False
  define s1 where "s1 = s\<lparr>fullResponse := fullResponse s @ c,
                    reasoningBuffer := reasoningBuffer s @ c\<rparr>"
  define t1 where "t1 = t\<lparr>fullResponse := fullResponse t @ c,
                    reasoningBuffer := reasoningBuffer t @ c\<rparr>"
  have e1: "reasoningBuffer s1 = reasoningBuffer t1" "inReasoning s1 = inReasoning t1"
    using assms by (simp_all add: s1_def t1_def)
  note e2 = detect_reasoning_same [OF e1]
  from e2 have e2': "reasoningBuffer (fst (detect_reasoning s1)) = reasoningBuffer (fst (detect_reasoning t1))"
    "inReasoning (fst (detect_reasoning s1)) = inReasoning (fst (detect_reasoning t1))"
    by blast+
  note e3 = detect_result_same [OF e2']
  from e3 have e3': "reasoningBuffer (fst (detect_result (fst (detect_reasoning s1))))
      = reasoningBuffer (fst (detect_result (fst (detect_reasoning t1))))"
    "inReasoning (fst (detect_result (fst (detect_reasoning s1))))
      = inReasoning (fst (detect_result (fst (detect_reasoning t1))))"
    by blast+
  note e4 = log_reasoning_same [OF e3', of c]
  have "on_content s c =
      (fst (log_reasoning (fst (detect_result (fst (detect_reasoning s1)))) c),
       snd (detect_reasoning s1) @ snd (detect_result (fst (detect_reasoning s1))) @
       snd (log_reasoning (fst (detect_result (fst (detect_reasoning s1)))) c) @
       [ResWrite (ChunkEvent c)])"
    unfolding on_content_unfold [OF False] Let_def s1_def ..
  moreover have "on_content t c =
      (fst (log_reasoning (fst (detect_result (fst (detect_reasoning t1)))) c),
       snd (detect_reasoning t1) @ snd (detect_result (fst (detect_reasoning t1))) @
       snd (log_reasoning (fst (detect_result (fst (detect_reasoning t1)))) c) @
       [ResWrite (ChunkEvent c)])"
    unfolding on_content_unfold [OF False] Let_def t1_def ..
  ultimately show ?thesis
    using e2 e3 e4 by simp
qed

lemma stream_loop_same_classifier:
  assumes "reasoningBuffer s = reasoningBuffer t" and "inReasoning s = inReasoning t"
  shows "snd (stream_loop s frags) = snd (stream_loop t frags) \<and>
         reasoningBuffer (fst (stream_loop s frags)) = reasoningBuffer (fst (stream_loop t frags)) \<and>
         inReasoning (fst (stream_loop s frags)) = inReasoning (fst (stream_loop t frags))"
  using assms
proof (induction frags arbitrary: s t)
  case Nil
  then show ?case by simp
next
  case (Cons c rest)
  from on_content_same_classifier [OF Cons.prems, of c]
  have "snd (on_content s c) = snd (on_content t c)"
    and "reasoningBuffer (fst (on_content s c)) = reasoningBuffer (fst (on_content t c))"
    and "inReasoning (fst (on_content s c)) = inReasoning (fst (on_content t c))"
    by auto
  with Cons.IH [of "fst (on_content s c)" "fst (on_content t c)"] show ?case
    by (simp add: stream_loop_Cons_fst stream_loop_Cons_snd del: stream_loop.simps)
qed

section \<open>Facts about the fan-out and the filter\<close>

lemma fold_send_other:
  "c \<notin> set cs \<Longrightarrow>
   fold (\<lambda>client s. if rs client = OPEN then s(client := s client @ [entry]) else s) cs s0 c = s0 c"
  by (induction cs arbitrary: s0) auto

lemma fold_send:
  "distinct cs \<Longrightarrow>
   fold (\<lambda>client s. if rs client = OPEN then s(client := s client @ [entry]) else s) cs s0 c =
     (if c \<in> set cs \<and> rs c = OPEN then s0 c @ [entry] else s0 c)"
proof (induction cs arbitrary: s0)
  case Nil
  then show ?case by simp
next
  case (Cons x xs)
  then show ?case
    by (auto simp: fold_send_other)
qed

lemma logToDebug_clients [simp]:
  "debugClients (logToDebug sv now msg lvl) = debugClients sv"
  "readyState (logToDebug sv now msg lvl) = readyState sv"
  by (simp_all add: logToDebug_def Let_def)

lemma logToDebug_sent:
  "distinct (debugClients sv) \<Longrightarrow>
   sent (logToDebug sv now msg lvl) c =
     (if c \<in> set (debugClients sv) \<and> readyState sv c = OPEN
      then sent sv c @ [\<lparr>timestamp = now, level = lvl, message = msg\<rparr>] else sent sv c)"
  by (simp add: logToDebug_def Let_def fold_send)

lemma logToDebug_sent_other:
  "c \<notin> set (debugClients sv) \<Longrightarrow> sent (logToDebug sv now msg lvl) c = sent sv c"
  by (simp add: logToDebug_def Let_def fold_send_other)

lemma distinct_set_add: "distinct xs \<Longrightarrow> distinct (set_add x xs)"
  by (simp add: set_add_def)

lemma distinct_set_delete: "distinct xs \<Longrightarrow> distinct (set_delete x xs)"
  by (simp add: set_delete_def)

lemma server_step_distinct:
  "distinct (debugClients sv) \<Longrightarrow> distinct (debugClients (server_step sv ev))"
  by (cases "(sv, ev)" rule: server_step.cases)
     (simp_all add: on_connection_def on_close_def distinct_set_add distinct_set_delete)

lemma server_run_distinct:
  "distinct (debugClients sv) \<Longrightarrow> distinct (debugClients (server_run sv evs))"
  unfolding server_run_def
  by (induction evs arbitrary: sv) (simp_all add: server_step_distinct)

lemma server_step_unsubscribed:
  assumes "x \<notin> set (debugClients sv)" and "snd ev \<noteq> Connection x"
  shows "x \<notin> set (debugClients (server_step sv ev)) \<and> sent (server_step sv ev) x = sent sv x"
  using assms
  by (cases "(sv, ev)" rule: server_step.cases)
     (auto simp: on_connection_def on_close_def set_add_def set_delete_def logToDebug_sent_other)

lemma server_run_unsubscribed:
  assumes "x \<notin> set (debugClients sv)" and "\<forall>ev \<in> set evs. snd ev \<noteq> Connection x"
  shows "x \<notin> set (debugClients (server_run sv evs)) \<and> sent (server_run sv evs) x = sent sv x"
  using assms unfolding server_run_def
proof (induction evs arbitrary: sv)
  case Nil
  then show ?case by simp
next
  case (Cons ev evs)
  from server_step_unsubscribed [of x sv ev] Cons.prems
  have "x \<notin> set (debugClients (server_step sv ev))" "sent (server_step sv ev) x = sent sv x"
    by auto
  with Cons.IH [of "server_step sv ev"] Cons.prems(2) show ?case
    by simp
qed

section \<open>The result extractor: claims\<close>

text \<open>
  The extractor never fails, and its result has a closed form in terms of \<open>indexOf\<close>:
  the code takes \<open>parts[0]\<close> and \<open>parts[1]\<close> of the split at every \<open>RESULT:\<close>.
\<close>

lemma extract_result_split:
  "extract_result full =
     (case indexOf full RESULT of
        None \<Rightarrow> Inr \<lparr>reasoningText = [], resultText = full\<rparr>
      | Some q \<Rightarrow>
          Inr \<lparr>reasoningText =
                 trim (case indexOf (take q full) REASONING of
                         None \<Rightarrow> take q full
                       | Some r \<Rightarrow> take r (take q full) @ drop (r + length REASONING) (take q full)),
               resultText =
                 trim (case indexOf (drop (q + length RESULT) full) RESULT of
                         None \<Rightarrow> drop (q + length RESULT) full
                       | Some q' \<Rightarrow> take q' (drop (q + length RESULT) full))\<rparr>)"
proof (cases "indexOf full RESULT")
  case None
  then show ?thesis
    by (simp add: extract_result_no_marker str_includes_def)
next
  case (Some q)
  then show ?thesis
    by (simp add: extract_result_marker replace_first_def cong: option.case_cong)
qed

text \<open>
  At a text with a second \<open>RESULT:\<close>, here inside the payload, the code returns the
  payload cut off before that second marker.
\<close>

lemma extract_result_second_marker:
  "extract_result (str ''REASONING: ok. RESULT: [{name:A,why_chosen:BEST RESULT: views}]'')
     = Inr \<lparr>reasoningText = str ''ok.'', resultText = str ''[{name:A,why_chosen:BEST''\<rparr>"
  by code_simp

text \<open>
  Claim C1, as amended. For a text with no \<open>RESULT:\<close>, the result is the whole text and
  the reasoning is empty. For a text in which \<open>RESULT:\<close> occurs once, at index \<open>q\<close>,
  the result is everything behind that occurrence, trimmed, and the reasoning is the text
  before \<open>q\<close> without its first \<open>REASONING:\<close>, wherever that stands, trimmed.
\<close>

theorem extract_result_single_marker:
  "(\<not> str_includes full RESULT \<longrightarrow>
      extract_result full = Inr \<lparr>reasoningText = [], resultText = full\<rparr>) \<and>
   (indexOf full RESULT = Some q \<and> \<not> str_includes (drop (q + length RESULT) full) RESULT \<longrightarrow>
      extract_result full =
        Inr \<lparr>reasoningText =
               trim (case indexOf (take q full) REASONING of
                       None \<Rightarrow> take q full
                     | Some r \<Rightarrow> take r (take q full) @ drop (r + length REASONING) (take q full)),
             resultText = trim (drop (q + length RESULT) full)\<rparr>)"
proof (intro conjI impI)
  show "extract_result full = Inr \<lparr>reasoningText = [], resultText = full\<rparr>"
    if "\<not> str_includes full RESULT"
    using that by (rule extract_result_no_marker)
  show "extract_result full =
        Inr \<lparr>reasoningText =
               trim (case indexOf (take q full) REASONING of
                       None \<Rightarrow> take q full
                     | Some r \<Rightarrow> take r (take q full) @ drop (r + length REASONING) (take q full)),
             resultText = trim (drop (q + length RESULT) full)\<rparr>"
    if h: "indexOf full RESULT = Some q \<and> \<not> str_includes (drop (q + length RESULT) full) RESULT"
  proof -
    from h have q: "indexOf full RESULT = Some q"
      and none: "indexOf (drop (q + length RESULT) full) RESULT = None"
      by (simp_all add: str_includes_def)
    show ?thesis
      unfolding extract_result_marker [OF q] none
      by (simp add: replace_first_def cong: option.case_cong)
  qed
qed

text \<open>
  The theorem at the response \<open>REASONING: near. RESULT: [1]\<close>, where \<open>RESULT:\<close> stands
  once, at index 17, and at the text \<open>[1]\<close>, which has none.
\<close>

theorem extract_result_single_marker_witness:
  "\<not> str_includes (str ''[1]'') RESULT \<and>
   extract_result (str ''[1]'') = Inr \<lparr>reasoningText = [], resultText = str ''[1]''\<rparr> \<and>
   indexOf (str ''REASONING: near. RESULT: [1]'') RESULT = Some 17 \<and>
   \<not> str_includes (drop (17 + length RESULT) (str ''REASONING: near. RESULT: [1]'')) RESULT \<and>
   extract_result (str ''REASONING: near. RESULT: [1]'') =
     Inr \<lparr>reasoningText = str ''near.'', resultText = str ''[1]''\<rparr>"
proof -
  let ?t = "str ''REASONING: near. RESULT: [1]''"
  have h1: "\<not> str_includes (str ''[1]'') RESULT"
    by code_simp
  have h2: "indexOf ?t RESULT = Some 17 \<and> \<not> str_includes (drop (17 + length RESULT) ?t) RESULT"
    by code_simp
  have v: "trim (case indexOf (take 17 ?t) REASONING of
                   None \<Rightarrow> take 17 ?t
                 | Some r \<Rightarrow> take r (take 17 ?t) @ drop (r + length REASONING) (take 17 ?t))
             = str ''near.''"
    "trim (drop (17 + length RESULT) ?t) = str ''[1]''"
    by code_simp+
  from extract_result_single_marker [of "str ''[1]''" 0] h1
  have a: "extract_result (str ''[1]'') = Inr \<lparr>reasoningText = [], resultText = str ''[1]''\<rparr>"
    by blast
  from extract_result_single_marker [of ?t 17] h2
  have "extract_result ?t =
        Inr \<lparr>reasoningText =
               trim (case indexOf (take 17 ?t) REASONING of
                       None \<Rightarrow> take 17 ?t
                     | Some r \<Rightarrow> take r (take 17 ?t) @ drop (r + length REASONING) (take 17 ?t)),
             resultText = trim (drop (17 + length RESULT) ?t)\<rparr>"
    by blast
  with v have b: "extract_result ?t = Inr \<lparr>reasoningText = str ''near.'', resultText = str ''[1]''\<rparr>"
    by simp
  from a b h1 h2 show ?thesis
    by blast
qed

text \<open>
  Claim C1 as it was stated fails where \<open>REASONING:\<close> is not leading. In
  \<open>so REASONING: r RESULT: [1]\<close> the only \<open>RESULT:\<close> is at index 16; the text before
  it does not start with \<open>REASONING:\<close>, so with only a leading literal stripped the
  reasoning would be \<open>so REASONING: r\<close>. The extractor removes the literal from the
  middle and returns \<open>so  r\<close>.
\<close>

theorem reasoning_marker_removed_anywhere:
  "indexOf (str ''so REASONING: r RESULT: [1]'') RESULT = Some 16 \<and>
   \<not> str_includes (drop (16 + length RESULT) (str ''so REASONING: r RESULT: [1]'')) RESULT \<and>
   \<not> prefix REASONING (take 16 (str ''so REASONING: r RESULT: [1]'')) \<and>
   trim (take 16 (str ''so REASONING: r RESULT: [1]'')) = str ''so REASONING: r'' \<and>
   extract_result (str ''so REASONING: r RESULT: [1]'')
     = Inr \<lparr>reasoningText = str ''so  r'', resultText = str ''[1]''\<rparr>"
  by code_simp

text \<open>
  Claim C7. The extractor is a function of the text alone. Whatever the text, the
  extraction succeeds, the extracted result holds no \<open>RESULT:\<close>, and extracting from
  that result again gives it back unchanged, with an empty reasoning.
\<close>

theorem extract_result_idempotent:
  "\<exists>x. extract_result full = Inr x \<and>
       \<not> str_includes (resultText x) RESULT \<and>
       extract_result (resultText x) = Inr \<lparr>reasoningText = [], resultText = resultText x\<rparr>"
proof (cases "indexOf full RESULT")
  case None
  then have "\<not> str_includes full RESULT"
    by (simp add: str_includes_def)
  then show ?thesis
    by (simp add: extract_result_no_marker)
next
  case (Some q)
  define after where "after = drop (q + length RESULT) full"
  define piece where "piece = (case indexOf after RESULT of None \<Rightarrow> after | Some q' \<Rightarrow> take q' after)"
  have "\<not> str_includes piece RESULT"
  proof (cases "indexOf after RESULT")
    case None
    then show ?thesis by (simp add: piece_def str_includes_def)
  next
    case (Some q')
    then show ?thesis
      using not_includes_take_indexOf [OF Some RESULT_not_Nil] by (simp add: piece_def)
  qed
  then have clean: "\<not> str_includes (trim piece) RESULT"
    using includes_mono sublist_trim by blast
  have "extract_result full =
      Inr \<lparr>reasoningText = trim (replace_first (take q full) REASONING []), resultText = trim piece\<rparr>"
    unfolding piece_def after_def by (rule extract_result_marker [OF Some])
  with clean show ?thesis
    by (simp add: extract_result_no_marker)
qed

section \<open>The stream classifier: claims\<close>

text \<open>
  Claim C5. The six fragments \<open>REAS\<close>, \<open>ONING:\<close>, \<open> hello world. \<close>, \<open>more text. \<close>,
  \<open>RE\<close>, \<open>SULT: [1,2,3]\<close>, fed to the classifier in its initial state, give in this
  order: the info notification of the \<open>REASONING:\<close> marker with the second fragment,
  the info notification \<open>AI: hello world.\<close> with the third, nothing for \<open>more text.\<close>
  (10 code units when trimmed), and the success notification of the \<open>RESULT:\<close> marker
  with the sixth. The accumulated text is the concatenation of the six. From any state
  and for any fragments, the accumulated text grows by the fragments in their order.
\<close>

theorem classifier_example:
  "stream_loop initial_state
     (map str [''REAS'', ''ONING:'', '' hello world. '', ''more text. '', ''RE'', ''SULT: [1,2,3]'']) =
     (\<lparr>fullResponse = str ''REASONING: hello world. more text. RESULT: [1,2,3]'',
       reasoningBuffer = [], inReasoning = False\<rparr>,
      [ResWrite (ChunkEvent (str ''REAS'')),
       LogToDebug (str ''AI started reasoning process...'') Info,
       ResWrite (ChunkEvent (str ''ONING:'')),
       LogToDebug (str ''AI: hello world.'') Info,
       ResWrite (ChunkEvent (str '' hello world. '')),
       ResWrite (ChunkEvent (str ''more text. '')),
       ResWrite (ChunkEvent (str ''RE'')),
       LogToDebug (str ''AI completed reasoning, generating itinerary...'') Success,
       ResWrite (ChunkEvent (str ''SULT: [1,2,3]''))]) \<and>
   length (trim (str ''more text. '')) = 10 \<and>
   fullResponse (fst (stream_loop st frags)) = fullResponse st @ concat frags"
proof (intro conjI)
  show "fullResponse (fst (stream_loop st frags)) = fullResponse st @ concat frags"
    by (rule stream_loop_fullResponse)
qed code_simp+

text \<open>
  Claim C6, as amended. Every fragment that is not empty is relayed as a chunk event,
  verbatim and in the order of the stream, whatever the state of the classifier; in the
  step of a fragment the relay comes last, behind the notifications of that step. A
  chunk whose content is empty or absent is skipped: nothing is written for it.
\<close>

theorem chunk_relay:
  "writes (snd (stream_loop st frags)) = map ChunkEvent (filter (\<lambda>c. c \<noteq> []) frags) \<and>
   (\<exists>log. writes log = [] \<and>
      snd (on_content st c) = log @ (if c = [] then [] else [ResWrite (ChunkEvent c)]))"
proof
  show "writes (snd (stream_loop st frags)) = map ChunkEvent (filter (\<lambda>c. c \<noteq> []) frags)"
    by (rule stream_loop_writes)
  show "\<exists>log. writes log = [] \<and>
      snd (on_content st c) = log @ (if c = [] then [] else [ResWrite (ChunkEvent c)])"
  proof (cases "c = []")
    case True
    then show ?thesis by (simp add: on_content_Nil writes_def)
  next
    case False
    define st1 where "st1 = st\<lparr>fullResponse := fullResponse st @ c,
                    reasoningBuffer := reasoningBuffer st @ c\<rparr>"
    define r2 where "r2 = detect_reasoning st1"
    define r3 where "r3 = detect_result (fst r2)"
    define r4 where "r4 = log_reasoning (fst r3) c"
    have oc: "on_content st c = (fst r4, (snd r2 @ snd r3 @ snd r4) @ [ResWrite (ChunkEvent c)])"
      using on_content_unfold [OF False, of st] by (simp add: Let_def st1_def r2_def r3_def r4_def)
    have "writes (snd r2 @ snd r3 @ snd r4) = []"
      using on_content_writes [of st c] False unfolding oc writes_append
      by (simp add: writes_def)
    with False oc show ?thesis by auto
  qed
qed

text \<open>
  Claim C6 as it was stated fails on a stream with an empty fragment: of the three
  fragments \<open>REASONING:\<close>, the empty string and \<open>ok\<close>, two are relayed.
\<close>

theorem empty_fragment_not_relayed:
  "on_content initial_state [] = (initial_state, []) \<and>
   writes (snd (stream_loop initial_state [str ''REASONING:'', [], str ''ok'']))
     = [ChunkEvent (str ''REASONING:''), ChunkEvent (str ''ok'')] \<and>
   writes (snd (stream_loop initial_state [str ''REASONING:'', [], str ''ok'']))
     \<noteq> map ChunkEvent [str ''REASONING:'', [], str ''ok'']"
  by code_simp

text \<open>
  Claim C2, as amended. The classifier is in the reasoning section and the fragment, not
  empty, does not complete a \<open>RESULT:\<close> marker in the buffer. If the fragment is not all
  white space and contains \<open>.\<close> or a newline, the buffer with the fragment appended is
  split at the sentence boundaries (white space behind \<open>.\<close>, \<open>!\<close> or \<open>?\<close>); every
  piece but the last whose trimmed length exceeds 10 gives the info notification
  \<open>AI: \<close> followed by the trimmed piece, in order, and no other piece gives one; the
  last piece is the new buffer. Otherwise nothing is split or logged and the buffer
  keeps the fragment appended. In both cases the fragment is relayed.
\<close>

theorem reasoning_sentences:
  assumes "inReasoning st"
    and "\<not> str_includes (reasoningBuffer st @ content) RESULT"
    and "content \<noteq> []"
  shows "on_content st content =
     (if trim content \<noteq> [] \<and> (str_includes content (str ''.'') \<or> str_includes content [0x000A])
      then (st\<lparr>fullResponse := fullResponse st @ content,
                reasoningBuffer := last (split_sentences (reasoningBuffer st @ content))\<rparr>,
            map (\<lambda>s. LogToDebug (str ''AI: '' @ trim s) Info)
                (filter (\<lambda>s. 10 < length (trim s))
                        (butlast (split_sentences (reasoningBuffer st @ content))))
            @ [ResWrite (ChunkEvent content)])
      else (st\<lparr>fullResponse := fullResponse st @ content,
                reasoningBuffer := reasoningBuffer st @ content\<rparr>,
            [ResWrite (ChunkEvent content)]))"
  using assms
  by (simp add: on_content_def detect_reasoning_def detect_result_def log_reasoning_def
      Let_def log_sentences_eq)

text \<open>
  The theorem at a fragment with four pieces: \<open>Go.\<close> and \<open>Short?\<close> are too short,
  \<open>A longer one!\<close> is logged, and \<open>And \<close> stays in the buffer.
\<close>

theorem reasoning_sentences_witness:
  "inReasoning \<lparr>fullResponse = str ''REASONING:'', reasoningBuffer = [], inReasoning = True\<rparr> \<and>
   \<not> str_includes (str ''Go. A longer one! Short? And '') RESULT \<and>
   on_content \<lparr>fullResponse = str ''REASONING:'', reasoningBuffer = [], inReasoning = True\<rparr>
       (str ''Go. A longer one! Short? And '') =
     (\<lparr>fullResponse = str ''REASONING:Go. A longer one! Short? And '',
       reasoningBuffer = str ''And '', inReasoning = True\<rparr>,
      [LogToDebug (str ''AI: A longer one!'') Info,
       ResWrite (ChunkEvent (str ''Go. A longer one! Short? And ''))])"
proof -
  let ?st = "\<lparr>fullResponse = str ''REASONING:'', reasoningBuffer = [], inReasoning = True\<rparr>"
  let ?c = "str ''Go. A longer one! Short? And ''"
  have h1: "inReasoning ?st" by simp
  have h2: "\<not> str_includes (reasoningBuffer ?st @ ?c) RESULT" by code_simp
  have h3: "?c \<noteq> []" by code_simp
  have e: "(if trim ?c \<noteq> [] \<and> (str_includes ?c (str ''.'') \<or> str_includes ?c [0x000A])
      then (?st\<lparr>fullResponse := fullResponse ?st @ ?c,
                reasoningBuffer := last (split_sentences (reasoningBuffer ?st @ ?c))\<rparr>,
            map (\<lambda>s. LogToDebug (str ''AI: '' @ trim s) Info)
                (filter (\<lambda>s. 10 < length (trim s))
                        (butlast (split_sentences (reasoningBuffer ?st @ ?c))))
            @ [ResWrite (ChunkEvent ?c)])
      else (?st\<lparr>fullResponse := fullResponse ?st @ ?c,
                reasoningBuffer := reasoningBuffer ?st @ ?c\<rparr>,
            [ResWrite (ChunkEvent ?c)])) =
     (\<lparr>fullResponse = str ''REASONING:Go. A longer one! Short? And '',
       reasoningBuffer = str ''And '', inReasoning = True\<rparr>,
      [LogToDebug (str ''AI: A longer one!'') Info,
       ResWrite (ChunkEvent (str ''Go. A longer one! Short? And ''))])"
    by code_simp
  from reasoning_sentences [OF h1 h2 h3] e h2 show ?thesis by simp
qed

text \<open>
  Claim C2 as it was stated fails at a fragment of white space only. After the fragments
  \<open>REASONING:\<close>, \<open>This is a sentence\<close>, \<open>.\<close> and \<open> And\<close> the buffer is
  \<open>This is a sentence. And\<close>. The next fragment is a newline: it holds a terminator
  and completes no \<open>RESULT:\<close>, and the buffer with it would split into the completed
  sentence \<open>This is a sentence.\<close> of 19 code units and a rest; yet nothing is logged
  and the whole text stays in the buffer.
\<close>

theorem whitespace_fragment_not_split:
  "fst (stream_loop initial_state
          [str ''REASONING:'', str ''This is a sentence'', str ''.'', str '' And'']) =
     \<lparr>fullResponse = str ''REASONING:This is a sentence. And'',
      reasoningBuffer = str ''This is a sentence. And'', inReasoning = True\<rparr> \<and>
   str_includes [0x000A :: code_unit] [0x000A] \<and>
   \<not> str_includes (str ''This is a sentence. And'' @ [0x000A]) RESULT \<and>
   split_sentences (str ''This is a sentence. And'' @ [0x000A]) =
     [str ''This is a sentence.'', str ''And'' @ [0x000A]] \<and>
   length (trim (str ''This is a sentence.'')) = 19 \<and>
   on_content \<lparr>fullResponse = str ''REASONING:This is a sentence. And'',
               reasoningBuffer = str ''This is a sentence. And'', inReasoning = True\<rparr>
       [0x000A] =
     (\<lparr>fullResponse = str ''REASONING:This is a sentence. And'' @ [0x000A],
       reasoningBuffer = str ''This is a sentence. And'' @ [0x000A], inReasoning = True\<rparr>,
      [ResWrite (ChunkEvent [0x000A])])"
  by code_simp

text \<open>
  A fragment with \<open>!\<close> followed by white space but with neither \<open>.\<close> nor a newline is
  not split either: the completed sentence \<open>Wow that is great!\<close> stays in the buffer.
\<close>

lemma exclamation_fragment_not_split:
  "\<not> str_includes (str ''Wow that is great! Next'') RESULT \<and>
   split_sentences (str ''Wow that is great! Next'') = [str ''Wow that is great!'', str ''Next''] \<and>
   length (trim (str ''Wow that is great!'')) = 18 \<and>
   on_content \<lparr>fullResponse = str ''REASONING:'', reasoningBuffer = [], inReasoning = True\<rparr>
       (str ''Wow that is great! Next'') =
     (\<lparr>fullResponse = str ''REASONING:Wow that is great! Next'',
       reasoningBuffer = str ''Wow that is great! Next'', inReasoning = True\<rparr>,
      [ResWrite (ChunkEvent (str ''Wow that is great! Next''))])"
  by code_simp

text \<open>
  Claim C3, as amended. The handler has one flag and no third state. Once the step of a
  fragment has logged the success notification of the \<open>RESULT:\<close> marker, the flag is
  off and the buffer is empty, as at the start: the fragments that follow are classified
  as a fresh classifier would classify them. So as long as their text holds no
  \<open>REASONING:\<close>, no notification is logged and the flag stays off after each of them.
\<close>

theorem after_result_no_reentry:
  assumes "(str ''AI completed reasoning, generating itinerary...'', Success)
             \<in> set (logs (snd (on_content st c)))"
  shows "snd (stream_loop (fst (on_content st c)) rest) = snd (stream_loop initial_state rest) \<and>
         inReasoning (fst (stream_loop (fst (on_content st c)) rest)) =
           inReasoning (fst (stream_loop initial_state rest)) \<and>
         (\<not> str_includes (concat rest) REASONING \<longrightarrow>
            logs (snd (stream_loop (fst (on_content st c)) (take n rest))) = [] \<and>
            \<not> inReasoning (fst (stream_loop (fst (on_content st c)) (take n rest))))"
proof -
  from assms have "Success \<in> snd ` set (logs (snd (on_content st c)))"
    by force
  then have st': "\<not> inReasoning (fst (on_content st c))"
    "reasoningBuffer (fst (on_content st c)) = []"
    using on_content_success by auto
  then have same: "reasoningBuffer (fst (on_content st c)) = reasoningBuffer initial_state"
    "inReasoning (fst (on_content st c)) = inReasoning initial_state"
    by (simp_all add: initial_state_def)
  have quiet: "logs (snd (stream_loop (fst (on_content st c)) (take n rest))) = [] \<and>
      \<not> inReasoning (fst (stream_loop (fst (on_content st c)) (take n rest)))"
    if no: "\<not> str_includes (concat rest) REASONING"
  proof -
    have "concat rest = concat (take n rest) @ concat (drop n rest)"
      by (metis append_take_drop_id concat_append)
    with no have "\<not> str_includes (concat (take n rest)) REASONING"
      using includes_appendI [of "concat (take n rest)" REASONING "[]" "concat (drop n rest)"]
      by auto
    with st' show ?thesis
      using stream_loop_idle [of "fst (on_content st c)" "take n rest"] by simp
  qed
  from stream_loop_same_classifier [OF same, of rest] quiet show ?thesis
    by blast
qed

text \<open>The theorem at a stream whose result arrives in three fragments.\<close>

theorem after_result_no_reentry_witness:
  "(str ''AI completed reasoning, generating itinerary...'', Success)
      \<in> set (logs (snd (on_content
           \<lparr>fullResponse = str ''REASONING: ok. '', reasoningBuffer = [], inReasoning = True\<rparr>
           (str ''RESULT: [''))))  \<and>
   \<not> str_includes (concat [str ''1,'', str ''2]'']) REASONING \<and>
   snd (stream_loop (fst (on_content
           \<lparr>fullResponse = str ''REASONING: ok. '', reasoningBuffer = [], inReasoning = True\<rparr>
           (str ''RESULT: [''))) [str ''1,'', str ''2]'']) =
     snd (stream_loop initial_state [str ''1,'', str ''2]'']) \<and>
   logs (snd (stream_loop (fst (on_content
           \<lparr>fullResponse = str ''REASONING: ok. '', reasoningBuffer = [], inReasoning = True\<rparr>
           (str ''RESULT: [''))) (take 2 [str ''1,'', str ''2]'']))) = [] \<and>
   \<not> inReasoning (fst (stream_loop (fst (on_content
           \<lparr>fullResponse = str ''REASONING: ok. '', reasoningBuffer = [], inReasoning = True\<rparr>
           (str ''RESULT: [''))) (take 2 [str ''1,'', str ''2]''])))"
proof -
  let ?st = "\<lparr>fullResponse = str ''REASONING: ok. '', reasoningBuffer = [], inReasoning = True\<rparr>"
  have h1: "(str ''AI completed reasoning, generating itinerary...'', Success)
      \<in> set (logs (snd (on_content ?st (str ''RESULT: [''))))"
    by code_simp
  have h2: "\<not> str_includes (concat [str ''1,'', str ''2]'']) REASONING"
    by code_simp
  from after_result_no_reentry [OF h1, of "[str ''1,'', str ''2]'']" 2] h1 h2 show ?thesis
    by blast
qed

text \<open>
  Claim C3 as it was stated fails: a \<open>REASONING:\<close> that arrives after the \<open>RESULT:\<close>
  marker logs the info notification again and turns the flag on again.
\<close>

theorem reasoning_reentered_after_result:
  "stream_loop initial_state [str ''REASONING:'', str ''RESULT:'', str ''REASONING:''] =
     (\<lparr>fullResponse = str ''REASONING:RESULT:REASONING:'', reasoningBuffer = [],
       inReasoning = True\<rparr>,
      [LogToDebug (str ''AI started reasoning process...'') Info,
       ResWrite (ChunkEvent (str ''REASONING:'')),
       LogToDebug (str ''AI completed reasoning, generating itinerary...'') Success,
       ResWrite (ChunkEvent (str ''RESULT:'')),
       LogToDebug (str ''AI started reasoning process...'') Info,
       ResWrite (ChunkEvent (str ''REASONING:''))])"
  by code_simp




section \<open>Event fan-out: claims\<close>

text \<open>
  Claim C9. In every state the server can reach from its start, a broadcast hands the
  log record to a socket exactly when the socket is in \<open>debugClients\<close> and its ready
  state is \<open>OPEN\<close>; every other socket gets nothing, and \<open>debugClients\<close> is left as it
  was, so a socket that is not ready is skipped and not removed. With no socket in
  \<open>debugClients\<close> nothing is sent (the line still goes to the console) and the call
  returns. Once the \<open>close\<close> handler of a socket has run, the socket is out of
  \<open>debugClients\<close> and is sent nothing more, by the handler's own broadcast or by
  anything that happens later, unless that same socket connects again.
\<close>

theorem fan_out:
  assumes "sv = server_run server_start history"
  shows "sent (logToDebug sv now msg lvl) c =
           (if c \<in> set (debugClients sv) \<and> readyState sv c = OPEN
            then sent sv c @ [\<lparr>timestamp = now, level = lvl, message = msg\<rparr>]
            else sent sv c) \<and>
         debugClients (logToDebug sv now msg lvl) = debugClients sv \<and>
         (debugClients sv = [] \<longrightarrow> sent (logToDebug sv now msg lvl) = sent sv) \<and>
         ((\<forall>ev \<in> set evs. snd ev \<noteq> Connection x) \<longrightarrow>
            x \<notin> set (debugClients (server_run (on_close sv now x) evs)) \<and>
            sent (server_run (on_close sv now x) evs) x = sent sv x)"
proof (intro conjI impI)
  have d: "distinct (debugClients sv)"
    unfolding assms by (rule server_run_distinct) (simp add: server_start_def)
  then show "sent (logToDebug sv now msg lvl) c =
           (if c \<in> set (debugClients sv) \<and> readyState sv c = OPEN
            then sent sv c @ [\<lparr>timestamp = now, level = lvl, message = msg\<rparr>]
            else sent sv c)"
    by (rule logToDebug_sent)
  show "debugClients (logToDebug sv now msg lvl) = debugClients sv"
    by simp
  show "sent (logToDebug sv now msg lvl) = sent sv" if "debugClients sv = []"
    using that by (simp add: logToDebug_def Let_def)
  have gone: "x \<notin> set (debugClients (on_close sv now x))"
    by (simp add: on_close_def set_delete_def)
  have kept: "sent (on_close sv now x) x = sent sv x"
    by (simp add: on_close_def logToDebug_sent_other set_delete_def)
  show "x \<notin> set (debugClients (server_run (on_close sv now x) evs))"
    if "\<forall>ev \<in> set evs. snd ev \<noteq> Connection x"
    using server_run_unsubscribed [OF gone that] by simp
  show "sent (server_run (on_close sv now x) evs) x = sent sv x"
    if "\<forall>ev \<in> set evs. snd ev \<noteq> Connection x"
    using server_run_unsubscribed [OF gone that] kept by simp
qed

text \<open>
  The theorem at a server with two consoles, the first of them open: a broadcast reaches
  the first only and removes neither; at the start of the server a broadcast sends
  nothing; after the first console has closed, a broadcast does not reach it.
\<close>

theorem fan_out_witness:
  "sent (logToDebug
           (server_run server_start
              [(str ''09:00:00'', Connection 1), (str ''09:00:01'', Connection 2),
               (str ''09:00:02'', ReadyStateChange 1 OPEN)])
           (str ''09:00:03'') (str ''hi'') Info) 1 =
     [\<lparr>timestamp = str ''09:00:03'', level = Info, message = str ''hi''\<rparr>] \<and>
   sent (logToDebug
           (server_run server_start
              [(str ''09:00:00'', Connection 1), (str ''09:00:01'', Connection 2),
               (str ''09:00:02'', ReadyStateChange 1 OPEN)])
           (str ''09:00:03'') (str ''hi'') Info) 2 = [] \<and>
   debugClients (logToDebug
           (server_run server_start
              [(str ''09:00:00'', Connection 1), (str ''09:00:01'', Connection 2),
               (str ''09:00:02'', ReadyStateChange 1 OPEN)])
           (str ''09:00:03'') (str ''hi'') Info) = [1, 2] \<and>
   sent (logToDebug (server_run server_start []) (str ''09:00:03'') (str ''hi'') Info) =
     sent (server_run server_start []) \<and>
   sent (server_run
           (on_close
              (server_run server_start
                 [(str ''09:00:00'', Connection 1), (str ''09:00:01'', Connection 2),
                  (str ''09:00:02'', ReadyStateChange 1 OPEN)])
              (str ''09:00:03'') 1)
           [(str ''09:00:04'', Broadcast (str ''hi'') Info)]) 1 = []"
proof -
  let ?h = "[(str ''09:00:00'', Connection 1), (str ''09:00:01'', Connection 2),
             (str ''09:00:02'', ReadyStateChange 1 OPEN)]"
  let ?sv = "server_run server_start ?h"
  have c: "debugClients ?sv = [1, 2]"
    by code_simp
  have r: "readyState ?sv 1 = OPEN" "readyState ?sv 2 \<noteq> OPEN"
    by code_simp+
  have s: "sent ?sv 1 = []" "sent ?sv 2 = []"
    by code_simp+
  have e: "debugClients (server_run server_start []) = []"
    by code_simp
  have n: "\<forall>ev \<in> set [(str ''09:00:04'', Broadcast (str ''hi'') Info)]. snd ev \<noteq> Connection 1"
    by simp
  note a1 = fan_out [OF refl, of ?h "str ''09:00:03''" "str ''hi''" Info 1
      "[(str ''09:00:04'', Broadcast (str ''hi'') Info)]" 1]
  note a2 = fan_out [OF refl, of ?h "str ''09:00:03''" "str ''hi''" Info 2 "[]" 2]
  note a3 = fan_out [OF refl, of "[]" "str ''09:00:03''" "str ''hi''" Info 1 "[]" 1]
  from a1 a2 a3 c r s e n show ?thesis
    by (simp del: server_step.simps)
qed

section \<open>The geo filter: what holds for every arithmetic\<close>

text \<open>
  The predicate of the filter is a conjunction of two comparisons, for whatever the
  number operations compute: a distance that does not compare as at most
  \<open>maxDistance\<close> rejects the activity whatever its price, and so does a price over
  the budget whatever the distance.
\<close>

lemma within_criteria_conjunction:
  "within_criteria N hotel preferences activity \<longleftrightarrow>
     le N (calculateDistance N (lat hotel) (lng hotel) (lat activity) (lng activity))
          (maxDistance preferences) \<and>
     le N (price_or_0 N activity) (budget preferences)"
  by (simp add: within_criteria_def Let_def)

text \<open>
  The distance of a point to itself is the literal 0, given what the operations do at 0:
  the differences of the equal coordinates are 0, products with 0 and the half of 0 are
  0, and \<open>Math.sin\<close>, \<open>Math.sqrt\<close> and \<open>Math.atan2\<close> take the values at 0 and 1 that
  ECMAScript fixes. Doubles satisfy these for finite coordinates.
\<close>

lemma calculateDistance_same_point:
  assumes "sub N la la = lit N 0" and "sub N lo lo = lit N 0"
    and "mul N (lit N 0) (quot N (Math_PI N) (lit N 180)) = lit N 0"
    and "quot N (lit N 0) (lit N 2) = lit N 0"
    and "Math_sin N (lit N 0) = lit N 0"
    and "mul N (lit N 0) (lit N 0) = lit N 0"
    and "mul N (mul N (Math_cos N (toRad N la)) (Math_cos N (toRad N la))) (lit N 0) = lit N 0"
    and "add N (lit N 0) (lit N 0) = lit N 0"
    and "Math_sqrt N (lit N 0) = lit N 0"
    and "sub N (lit N 1) (lit N 0) = lit N 1"
    and "Math_sqrt N (lit N 1) = lit N 1"
    and "Math_atan2 N (lit N 0) (lit N 1) = lit N 0"
    and "mul N (lit N 2) (lit N 0) = lit N 0"
    and "mul N (lit N 3959) (lit N 0) = lit N 0"
  shows "calculateDistance N la lo la lo = lit N 0"
  using assms by (simp add: calculateDistance_def toRad_def Let_def)

end
